theory Spec2Isabelle
  imports Main
begin

section \<open>Python text primitives used by the workers\<close>

text \<open>
  Python strings are sequences of code points. The embedding takes \<^typ>\<open>string\<close> and
  reads a \<^typ>\<open>char\<close> as the code point of the same number, so it covers texts whose code
  points lie in U+0000..U+00FF. The three character classes below are the ones CPython
  uses for a \<^verbatim>\<open>str\<close> pattern on that range: \<^verbatim>\<open>\w\<close> is "alphanumeric or underscore",
  \<^verbatim>\<open>\s\<close> and \<^verbatim>\<open>str.strip()\<close> use \<^verbatim>\<open>str.isspace\<close>, and \<^verbatim>\<open>str.splitlines()\<close> breaks at
  the line boundaries listed in the language reference.
\<close>

definition is_word :: "char \<Rightarrow> bool" where
  "is_word c =
     (let n = (of_char c :: nat) in
        (48 \<le> n \<and> n \<le> 57) \<or> (65 \<le> n \<and> n \<le> 90) \<or> n = 95 \<or> (97 \<le> n \<and> n \<le> 122)
        \<or> n = 170 \<or> n = 178 \<or> n = 179 \<or> n = 181 \<or> n = 185 \<or> n = 186
        \<or> (188 \<le> n \<and> n \<le> 190) \<or> (192 \<le> n \<and> n \<le> 214)
        \<or> (216 \<le> n \<and> n \<le> 246) \<or> 248 \<le> n)"

definition is_space :: "char \<Rightarrow> bool" where
  "is_space c =
     (let n = (of_char c :: nat) in
        (9 \<le> n \<and> n \<le> 13) \<or> (28 \<le> n \<and> n \<le> 32) \<or> n = 133 \<or> n = 160)"

definition is_linebreak :: "char \<Rightarrow> bool" where
  "is_linebreak c =
     (let n = (of_char c :: nat) in
        (10 \<le> n \<and> n \<le> 13) \<or> (28 \<le> n \<and> n \<le> 30) \<or> n = 133)"

text \<open>
  \<open>match_var s\<close> tries the pattern \<^verbatim>\<open>\$\w+\$\<close> (the default \<^verbatim>\<open>var_regex\<close>, which no caller
  overrides) at the first position of \<open>s\<close> and returns the matched text and the rest.
  The greedy \<^verbatim>\<open>\w+\<close> takes every word character; giving some back never helps, because
  the closing \<^verbatim>\<open>\$\<close> is not a word character.
\<close>

definition match_var :: "string \<Rightarrow> (string \<times> string) option" where
  "match_var s =
     (case s of
        [] \<Rightarrow> None
      | c # cs \<Rightarrow>
          if c = CHR ''$'' then
            (case dropWhile is_word cs of
               [] \<Rightarrow> None
             | d # rest \<Rightarrow>
                 if d = CHR ''$'' \<and> takeWhile is_word cs \<noteq> []
                 then Some (c # takeWhile is_word cs @ [d], rest)
                 else None)
          else None)"

lemma match_var_SomeD:
  assumes "match_var s = Some (tok, rest)"
  shows "s = tok @ rest"
    and "tok = CHR ''$'' # takeWhile is_word (tl s) @ [CHR ''$'']"
    and "takeWhile is_word (tl s) \<noteq> []"
proof -
  from assms obtain cs where s: "s = CHR ''$'' # cs"
    by (auto simp: match_var_def split: list.splits if_splits)
  from assms s have d: "dropWhile is_word cs = CHR ''$'' # rest"
    and t: "tok = CHR ''$'' # takeWhile is_word cs @ [CHR ''$'']"
    and w: "takeWhile is_word cs \<noteq> []"
    by (auto simp: match_var_def split: list.splits if_splits)
  have "cs = takeWhile is_word cs @ dropWhile is_word cs" by simp
  with d have "cs = takeWhile is_word cs @ CHR ''$'' # rest" by simp
  with s t show "s = tok @ rest" by simp
  from s t show "tok = CHR ''$'' # takeWhile is_word (tl s) @ [CHR ''$'']" by simp
  from s w show "takeWhile is_word (tl s) \<noteq> []" by simp
qed

lemma match_var_shorter: "match_var s = Some (tok, rest) \<Longrightarrow> length rest < length s"
proof -
  assume m: "match_var s = Some (tok, rest)"
  have "length s = length tok + length rest"
    using match_var_SomeD(1)[OF m] by (metis length_append)
  moreover have "0 < length tok"
    using match_var_SomeD(2)[OF m] by simp
  ultimately show ?thesis by simp
qed

text \<open>
  \<^verbatim>\<open>re.findall\<close>: the non-overlapping matches, scanning left to right; after a match the
  scan goes on behind it, otherwise one character further.
\<close>

function re_findall :: "string \<Rightarrow> string list" where
  "re_findall [] = []"
| "re_findall (c # cs) =
     (case match_var (c # cs) of
        Some (tok, rest) \<Rightarrow> tok # re_findall rest
      | None \<Rightarrow> re_findall cs)"
  by pat_completeness auto
termination
  by (relation "measure length") (auto dest: match_var_shorter)

text \<open>
  \<^verbatim>\<open>re.split\<close> with a pattern that has no group and never matches the empty string: the
  texts between the matches, \<open>acc\<close> being the fragment read since the last match.
\<close>

function re_split_from :: "string \<Rightarrow> string \<Rightarrow> string list" where
  "re_split_from acc [] = [acc]"
| "re_split_from acc (c # cs) =
     (case match_var (c # cs) of
        Some (tok, rest) \<Rightarrow> acc # re_split_from [] rest
      | None \<Rightarrow> re_split_from (acc @ [c]) cs)"
  by pat_completeness auto
termination
  by (relation "measure (\<lambda>(acc, s). length s)") (auto dest: match_var_shorter)

definition re_split :: "string \<Rightarrow> string list" where
  "re_split s = re_split_from [] s"

text \<open>
  \<^verbatim>\<open>str.splitlines()\<close>: a carriage return directly followed by a line feed is one break;
  no line is produced for the empty rest behind the last break.
\<close>

fun skip_lf :: "char \<Rightarrow> string \<Rightarrow> string" where
  "skip_lf c (d # ds) = (if c = CHR 0x0D \<and> d = CHR 0x0A then ds else d # ds)"
| "skip_lf c [] = []"

lemma length_skip_lf: "length (skip_lf c cs) \<le> length cs"
  by (cases cs) auto

function splitlines_from :: "string \<Rightarrow> string \<Rightarrow> string list" where
  "splitlines_from acc [] = (if acc = [] then [] else [acc])"
| "splitlines_from acc (c # cs) =
     (if is_linebreak c
      then acc # splitlines_from [] (skip_lf c cs)
      else splitlines_from (acc @ [c]) cs)"
  by pat_completeness auto
termination
  by (relation "measure (\<lambda>(acc, s). length s)") (auto simp: length_skip_lf less_Suc_eq_le)

definition splitlines :: "string \<Rightarrow> string list" where
  "splitlines s = splitlines_from [] s"

text \<open>
  \<^verbatim>\<open>re.search(r'^\s*$', s)\<close> finds a match exactly when nothing is left behind the leading
  white space: \<^verbatim>\<open>$\<close> also matches in front of a final line feed, but a line feed is white
  space itself, so that case adds no string.
\<close>

definition blank :: "string \<Rightarrow> bool" where
  "blank s = (dropWhile is_space s = [])"

definition strip :: "string \<Rightarrow> string" where
  "strip s = rev (dropWhile is_space (rev (dropWhile is_space s)))"

section \<open>Exceptions and checked list access\<close>

datatype exn = IndexError | AttributeError | OSError

definition getitem :: "'a list \<Rightarrow> nat \<Rightarrow> exn + 'a" where
  "getitem xs i = (if i < length xs then Inr (xs ! i) else Inl IndexError)"

definition getlast :: "'a list \<Rightarrow> exn + 'a" where
  "getlast xs = (if xs = [] then Inl IndexError else Inr (last xs))"

definition dict_get :: "(string \<rightharpoonup> string) \<Rightarrow> string \<Rightarrow> string \<Rightarrow> string" where
  "dict_get d k dflt = (case d k of Some v \<Rightarrow> v | None \<Rightarrow> dflt)"

section \<open>FillValuesWorker\<close>

subsection \<open>get_template_vars\<close>

text \<open>
  The file system is a map from paths to the text that \<^verbatim>\<open>open(filepath).read()\<close>
  returns; opening a missing path raises. The loop of \<^verbatim>\<open>get_template_vars\<close> appends a
  match to \<open>var_list\<close> unless the list holds it already.
\<close>

fun collect_vars :: "string list \<Rightarrow> string list \<Rightarrow> string list" where
  "collect_vars var_list [] = var_list"
| "collect_vars var_list (var # vars) =
     collect_vars (if var \<notin> set var_list then var_list @ [var] else var_list) vars"

definition get_template_vars :: "(string \<rightharpoonup> string) \<Rightarrow> string \<Rightarrow> exn + (string \<times> string list)" where
  "get_template_vars fs filepath =
     (case fs filepath of
        None \<Rightarrow> Inl OSError
      | Some content \<Rightarrow> Inr (content, collect_vars [] (re_findall content)))"

subsection \<open>The worksheet interface\<close>

text \<open>
  A rich line is the flat argument list the code builds: a format object followed by the
  text it applies to. The three formats are values of the workbook, of a type \<open>'f\<close> the
  workers never look into; membership tests compare them by equality.
\<close>

datatype 'f item = Fmt 'f | Txt string

text \<open>
  The worksheet of the spreadsheet writer is the sequence of calls made on it.
  \<open>sheet_of\<close> is the cell table these calls leave: a later write to a cell replaces an
  earlier one.
\<close>

datatype 'f ws_call =
    SetColumn nat nat nat
  | Write nat nat string 'f
  | WriteString nat nat "'f item" 'f
  | WriteRichString nat nat "'f item list"

datatype 'f cell = Plain "'f item" 'f | Rich "'f item list"

fun call_cell :: "'f ws_call \<Rightarrow> ((nat \<times> nat) \<times> 'f cell) option" where
  "call_cell (SetColumn a b w) = None"
| "call_cell (Write r c s f) = Some ((r, c), Plain (Txt s) f)"
| "call_cell (WriteString r c x f) = Some ((r, c), Plain x f)"
| "call_cell (WriteRichString r c xs) = Some ((r, c), Rich xs)"

fun sheet_of :: "'f ws_call list \<Rightarrow> (nat \<times> nat) \<rightharpoonup> 'f cell" where
  "sheet_of [] = Map.empty"
| "sheet_of (call # calls) =
     (case call_cell call of
        None \<Rightarrow> sheet_of calls
      | Some (rc, v) \<Rightarrow> [rc \<mapsto> v] ++ sheet_of calls)"

subsection \<open>create_excel_form\<close>

text \<open>
  The form is the name of the temporary file together with the calls made on its
  worksheet: the blank grid of 500 rows and 50 columns, row by row, and then the tokens
  down column 0. Both loops only append calls, so they are maps over their ranges.
\<close>

definition create_excel_form :: "string \<Rightarrow> 'f \<Rightarrow> string list \<Rightarrow> string \<times> 'f ws_call list" where
  "create_excel_form tmp_name ftbody var_list =
     (tmp_name,
      concat (map (\<lambda>row_idx. map (\<lambda>col_idx. Write row_idx col_idx [] ftbody) [0..<50]) [0..<500])
      @ map (\<lambda>(idx, var). Write idx 0 var ftbody) (enumerate 0 var_list))"

section \<open>BuildOutputWorker\<close>

subsection \<open>sub_get_string\<close>

text \<open>
  The inner loop \<^verbatim>\<open>for i in range(len(reg))\<close>, with \<open>format_line\<close> threaded through;
  \<^verbatim>\<open>non_reg[i]\<close> and \<^verbatim>\<open>reg[i]\<close> are checked accesses.
\<close>

fun format_tokens ::
  "(string \<rightharpoonup> string) \<Rightarrow> 'f \<Rightarrow> 'f \<Rightarrow> 'f \<Rightarrow> string list \<Rightarrow> string list \<Rightarrow> nat list
     \<Rightarrow> 'f item list \<Rightarrow> exn + 'f item list" where
  "format_tokens repl ftb fthl fte non_reg reg [] format_line = Inr format_line"
| "format_tokens repl ftb fthl fte non_reg reg (i # is) format_line =
     (case getitem non_reg i of
        Inl e \<Rightarrow> Inl e
      | Inr lit \<Rightarrow>
          (case getitem reg i of
             Inl e \<Rightarrow> Inl e
           | Inr tok \<Rightarrow>
               (let fl = (if \<not> blank lit then format_line @ [Fmt ftb, Txt lit] else format_line);
                    v = dict_get repl tok []
                in format_tokens repl ftb fthl fte non_reg reg is
                     (if \<not> blank v then fl @ [Fmt fthl, Txt v] else fl @ [Fmt fte, Txt tok]))))"

definition format_one_line ::
  "(string \<rightharpoonup> string) \<Rightarrow> 'f \<Rightarrow> 'f \<Rightarrow> 'f \<Rightarrow> string \<Rightarrow> exn + 'f item list" where
  "format_one_line repl ftb fthl fte line =
     (let non_reg = re_split line; reg = re_findall line in
      case format_tokens repl ftb fthl fte non_reg reg [0..<length reg] [] of
        Inl e \<Rightarrow> Inl e
      | Inr format_line \<Rightarrow>
          (case getlast non_reg of
             Inl e \<Rightarrow> Inl e
           | Inr lit \<Rightarrow>
               Inr (if \<not> blank lit then format_line @ [Fmt ftb, Txt lit] else format_line)))"

fun format_lines ::
  "(string \<rightharpoonup> string) \<Rightarrow> 'f \<Rightarrow> 'f \<Rightarrow> 'f \<Rightarrow> string list \<Rightarrow> 'f item list list
     \<Rightarrow> exn + 'f item list list" where
  "format_lines repl ftb fthl fte [] cfg_format = Inr cfg_format"
| "format_lines repl ftb fthl fte (line # lines) cfg_format =
     (case format_one_line repl ftb fthl fte line of
        Inl e \<Rightarrow> Inl e
      | Inr format_line \<Rightarrow> format_lines repl ftb fthl fte lines (cfg_format @ [format_line]))"

definition sub_get_string ::
  "string \<Rightarrow> (string \<rightharpoonup> string) \<Rightarrow> 'f \<Rightarrow> 'f \<Rightarrow> 'f \<Rightarrow> exn + 'f item list list" where
  "sub_get_string cfg repl ftb fthl fte = format_lines repl ftb fthl fte (splitlines cfg) []"

subsection \<open>write_rich_table\<close>

text \<open>
  \<^verbatim>\<open>cfg_line[-1].strip()\<close> needs a string: a format object has no such method.
\<close>

fun item_strip :: "'f item \<Rightarrow> exn + 'f item" where
  "item_strip (Txt s) = Inr (Txt (strip s))"
| "item_strip (Fmt f) = Inl AttributeError"

text \<open>
  The body of the loop for one line: the calls it makes on the worksheet (none or one),
  or the exception it raises.
\<close>

definition write_line ::
  "'f \<Rightarrow> 'f \<Rightarrow> 'f \<Rightarrow> nat \<Rightarrow> nat \<Rightarrow> 'f item list \<Rightarrow> exn + 'f ws_call list" where
  "write_line ftb fthl fte row_index col_index cfg_line =
     (if Fmt ftb \<in> set cfg_line \<and> (Fmt fthl \<in> set cfg_line \<or> Fmt fte \<in> set cfg_line)
      then Inr [WriteRichString row_index col_index cfg_line]
      else if Fmt fthl \<in> set cfg_line
      then (case getlast cfg_line of
              Inl e \<Rightarrow> Inl e
            | Inr x \<Rightarrow> (case item_strip x of
                          Inl e \<Rightarrow> Inl e
                        | Inr t \<Rightarrow> Inr [WriteString row_index col_index t fthl]))
      else if Fmt fte \<in> set cfg_line
      then (case getlast cfg_line of
              Inl e \<Rightarrow> Inl e
            | Inr x \<Rightarrow> (case item_strip x of
                          Inl e \<Rightarrow> Inl e
                        | Inr t \<Rightarrow> Inr [WriteString row_index col_index t fte]))
      else if Fmt ftb \<in> set cfg_line
      then (case getlast cfg_line of
              Inl e \<Rightarrow> Inl e
            | Inr x \<Rightarrow> Inr [WriteString row_index col_index x ftb])
      else Inr [])"

text \<open>
  The loop over \<open>cfg_lines\<close>: the worksheet \<open>ws\<close> and \<open>row_index\<close> are threaded through.
  An exception leaves the calls made so far and is returned beside them.
\<close>

fun write_lines ::
  "'f \<Rightarrow> 'f \<Rightarrow> 'f \<Rightarrow> nat \<Rightarrow> 'f item list list \<Rightarrow> nat \<Rightarrow> 'f ws_call list
     \<Rightarrow> 'f ws_call list \<times> exn option" where
  "write_lines ftb fthl fte col_index [] row_index ws = (ws, None)"
| "write_lines ftb fthl fte col_index (cfg_line # cfg_lines) row_index ws =
     (case write_line ftb fthl fte row_index col_index cfg_line of
        Inl e \<Rightarrow> (ws, Some e)
      | Inr calls \<Rightarrow> write_lines ftb fthl fte col_index cfg_lines (row_index + 1) (ws @ calls))"

definition write_rich_table ::
  "'f ws_call list \<Rightarrow> 'f item list list \<Rightarrow> 'f \<Rightarrow> 'f \<Rightarrow> 'f \<Rightarrow> nat \<Rightarrow> nat \<Rightarrow> nat
     \<Rightarrow> 'f ws_call list \<times> exn option" where
  "write_rich_table ws cfg_lines ftb fthl fte row_index col_index col_width =
     write_lines ftb fthl fte col_index cfg_lines row_index
       (ws @ [SetColumn col_index col_index col_width])"

subsection \<open>run\<close>

text \<open>
  The form is the first sheet of the workbook read from \<open>variable_file_path\<close>; its cells
  are taken as texts. Every access of the loop is inside \<open>nrows\<close> and \<open>ncols\<close>.
\<close>

record sheet =
  nrows :: nat
  ncols :: nat
  cell_value :: "nat \<Rightarrow> nat \<Rightarrow> string"

text \<open>
  The dictionary comprehension over the rows of the form: a later row with the same
  label replaces the value of an earlier one.
\<close>

definition repl_dict :: "sheet \<Rightarrow> nat \<Rightarrow> (string \<rightharpoonup> string)" where
  "repl_dict worksheet_form col_idx =
     foldl (\<lambda>d row. d(cell_value worksheet_form row 0 \<mapsto> cell_value worksheet_form row col_idx))
       Map.empty [0..<nrows worksheet_form]"

text \<open>
  What \<open>run\<close> takes from its surroundings: the reader of the form, the three formats of the
  output workbook, whether \<^verbatim>\<open>logging\<close> has the attribute \<^verbatim>\<open>savings\<close>, and what closing the
  workbook and removing a file do (\<open>None\<close>: no exception). Creating the output workbook
  and its sheet is taken not to raise. The state of a run is its log, the calls made on
  the output worksheet, whether the workbook has been closed, the files removed, and the
  exception that ended the run, if any.
\<close>

record 'f env =
  XLR :: "string \<Rightarrow> exn + sheet"
  ftbody :: 'f
  fthighlight :: 'f
  fterror :: 'f
  has_savings :: bool
  workbook_close :: "string \<Rightarrow> exn option"
  os_remove :: "string \<Rightarrow> exn option"

datatype log_entry = Info string | Error exn | Savings nat

record 'f run_state =
  log :: "log_entry list"
  worksheet :: "'f ws_call list"
  closed :: bool
  removed :: "string list"
  raised :: "exn option"

definition logging :: "log_entry \<Rightarrow> 'f run_state \<Rightarrow> 'f run_state" where
  "logging entry st = st\<lparr>log := log st @ [entry]\<rparr>"

fun build_columns ::
  "'f env \<Rightarrow> string \<Rightarrow> sheet \<Rightarrow> nat list \<Rightarrow> 'f run_state \<Rightarrow> 'f run_state" where
  "build_columns env template worksheet_form [] st = st"
| "build_columns env template worksheet_form (col_idx # cols) st =
     (case sub_get_string template (repl_dict worksheet_form col_idx)
             (ftbody env) (fthighlight env) (fterror env) of
        Inl e \<Rightarrow> st\<lparr>raised := Some e\<rparr>
      | Inr cfg \<Rightarrow>
          (case write_rich_table (worksheet st) cfg (ftbody env) (fthighlight env) (fterror env)
                  0 (col_idx - 1) 95 of
             (ws, Some e) \<Rightarrow> st\<lparr>worksheet := ws, raised := Some e\<rparr>
           | (ws, None) \<Rightarrow>
               build_columns env template worksheet_form cols
                 (if has_savings env then logging (Savings 10) (st\<lparr>worksheet := ws\<rparr>)
                  else st\<lparr>worksheet := ws\<rparr>)))"

definition run :: "'f env \<Rightarrow> string \<Rightarrow> string \<Rightarrow> string \<Rightarrow> 'f run_state" where
  "run env template variable_file_path output_report =
     (let st0 = \<lparr>log = [], worksheet = [], closed = False, removed = [], raised = None\<rparr> in
      if variable_file_path = [] then logging (Info ''Variable form cannot be empty'') st0
      else
        (let st1 = logging (Info ''Building output'') st0 in
         case XLR env variable_file_path of
           Inl e \<Rightarrow> st1\<lparr>raised := Some e\<rparr>
         | Inr worksheet_form \<Rightarrow>
             (let st2 = build_columns env template worksheet_form [1..<ncols worksheet_form] st1 in
              if raised st2 \<noteq> None then st2
              else
                (case workbook_close env output_report of
                   Some e \<Rightarrow> st2\<lparr>raised := Some e\<rparr>
                 | None \<Rightarrow>
                     (let st3 = st2\<lparr>closed := True\<rparr>;
                          st4 = (case os_remove env variable_file_path of
                                   None \<Rightarrow> logging (Info ''Variable form removed successfully'')
                                             (st3\<lparr>removed := removed st3 @ [variable_file_path]\<rparr>)
                                 | Some e \<Rightarrow> logging (Error e) st3)
                      in logging (Info ''Variables Replaced!'') st4)))))"

section \<open>The specification's vocabulary\<close>

text \<open>
  The specification speaks of segments with a kind where the code pairs a format with a
  text: LITERAL is the body format, FILLED the highlight format, UNRESOLVED the error
  format. \<open>encode\<close> writes a sequence of segments as the flat list of the code.
\<close>

datatype kind = LITERAL | FILLED | UNRESOLVED

fun style_of :: "'f \<Rightarrow> 'f \<Rightarrow> 'f \<Rightarrow> kind \<Rightarrow> 'f" where
  "style_of ftb fthl fte LITERAL = ftb"
| "style_of ftb fthl fte FILLED = fthl"
| "style_of ftb fthl fte UNRESOLVED = fte"

definition encode :: "'f \<Rightarrow> 'f \<Rightarrow> 'f \<Rightarrow> (kind \<times> string) list \<Rightarrow> 'f item list" where
  "encode ftb fthl fte segs =
     concat (map (\<lambda>(k, t). [Fmt (style_of ftb fthl fte k), Txt t]) segs)"

text \<open>
  The renderer in the specification's words: a non-blank literal fragment is a LITERAL
  segment and a blank one is dropped; a token is FILLED with its value when the mapping
  has a non-blank value for it, and UNRESOLVED with its own text otherwise; fragments and
  tokens alternate, and the fragment behind the last token comes last.
\<close>

definition literal_spec :: "string \<Rightarrow> (kind \<times> string) list" where
  "literal_spec fragment = (if blank fragment then [] else [(LITERAL, fragment)])"

definition resolve_spec :: "(string \<rightharpoonup> string) \<Rightarrow> string \<Rightarrow> kind \<times> string" where
  "resolve_spec m token =
     (case m token of
        Some v \<Rightarrow> if blank v then (UNRESOLVED, token) else (FILLED, v)
      | None \<Rightarrow> (UNRESOLVED, token))"

fun emit_spec :: "(string \<rightharpoonup> string) \<Rightarrow> string list \<Rightarrow> string list \<Rightarrow> (kind \<times> string) list" where
  "emit_spec m (fragment # fragments) (token # tokens) =
     literal_spec fragment @ resolve_spec m token # emit_spec m fragments tokens"
| "emit_spec m [fragment] [] = literal_spec fragment"
| "emit_spec m fragments tokens = []"

definition render_line_spec :: "(string \<rightharpoonup> string) \<Rightarrow> string \<Rightarrow> (kind \<times> string) list" where
  "render_line_spec m line = emit_spec m (re_split line) (re_findall line)"

text \<open>
  \<open>interleave fragments tokens\<close> puts a line together again from its fragments and the
  texts standing between them; \<open>is_token\<close> says that a text is one match of the pattern.
\<close>

fun interleave :: "string list \<Rightarrow> string list \<Rightarrow> string" where
  "interleave (fragment # fragments) (token # tokens) =
     fragment @ token @ interleave fragments tokens"
| "interleave fragments [] = concat fragments"
| "interleave [] tokens = concat tokens"

definition is_token :: "string \<Rightarrow> bool" where
  "is_token t =
     (case t of
        [] \<Rightarrow> False
      | c # cs \<Rightarrow> c = CHR ''$'' \<and> cs \<noteq> [] \<and> last cs = CHR ''$''
                 \<and> butlast cs \<noteq> [] \<and> list_all is_word (butlast cs))"

definition texts_of :: "'f item list \<Rightarrow> string" where
  "texts_of xs = concat (map (\<lambda>x. case x of Txt t \<Rightarrow> t | Fmt f \<Rightarrow> []) xs)"

text \<open>
  The writer in the specification's words, on segments: a line with a LITERAL segment and
  a FILLED or UNRESOLVED one is written as a rich string; a line of UNRESOLVED segments
  only, or of FILLED segments only, as the text of its last segment with the white space
  at its right end removed, in the error or the highlight format; a line of LITERAL
  segments only as the text of its last segment; any other line is not written.
\<close>

definition rstrip :: "string \<Rightarrow> string" where
  "rstrip s = rev (dropWhile is_space (rev s))"

definition has_kind :: "kind \<Rightarrow> (kind \<times> string) list \<Rightarrow> bool" where
  "has_kind k segs = (k \<in> set (map fst segs))"

definition only_kind :: "kind \<Rightarrow> (kind \<times> string) list \<Rightarrow> bool" where
  "only_kind k segs = (segs \<noteq> [] \<and> list_all (\<lambda>s. fst s = k) segs)"

definition write_line_spec ::
  "'f \<Rightarrow> 'f \<Rightarrow> 'f \<Rightarrow> nat \<Rightarrow> nat \<Rightarrow> (kind \<times> string) list \<Rightarrow> 'f ws_call list" where
  "write_line_spec ftb fthl fte row col segs =
     (if has_kind LITERAL segs \<and> (has_kind FILLED segs \<or> has_kind UNRESOLVED segs)
      then [WriteRichString row col (encode ftb fthl fte segs)]
      else if only_kind UNRESOLVED segs
      then [WriteString row col (Txt (rstrip (snd (last segs)))) fte]
      else if only_kind FILLED segs
      then [WriteString row col (Txt (rstrip (snd (last segs)))) fthl]
      else if only_kind LITERAL segs
      then [WriteString row col (Txt (snd (last segs))) ftb]
      else [])"

text \<open>The calls a step makes when it raises nothing.\<close>

definition calls_of :: "exn + 'a list \<Rightarrow> 'a list" where
  "calls_of r = (case r of Inl e \<Rightarrow> [] | Inr calls \<Rightarrow> calls)"

text \<open>
  \<open>render_column\<close> is the template rendered under the mapping of one column of the form,
  as the flat lists of the code, and \<open>column_calls\<close> the calls that put such a rendering
  into output column \<open>c\<close>: the width of the column, then for line \<open>r\<close> what the writer
  does for it at row \<open>r\<close>.
\<close>

definition render_column :: "'f env \<Rightarrow> string \<Rightarrow> sheet \<Rightarrow> nat \<Rightarrow> 'f item list list" where
  "render_column env template form col_idx =
     map (\<lambda>line. encode (ftbody env) (fthighlight env) (fterror env)
                   (render_line_spec (repl_dict form col_idx) line))
       (splitlines template)"

definition column_calls :: "'f env \<Rightarrow> nat \<Rightarrow> 'f item list list \<Rightarrow> 'f ws_call list" where
  "column_calls env c lines =
     SetColumn c c 95 #
     concat (map (\<lambda>r. calls_of (write_line (ftbody env) (fthighlight env) (fterror env) r c (lines ! r)))
               [0..<length lines])"

text \<open>
  A form with one token and one instance column, and surroundings in which removing
  the form fails.
\<close>

definition example_form :: sheet where
  "example_form = \<lparr>nrows = 1, ncols = 2, cell_value = (\<lambda>row col. if col = 0 then ''$A$'' else ''x'')\<rparr>"

definition example_env :: "nat env" where
  "example_env =
     \<lparr>XLR = (\<lambda>path. Inr example_form), ftbody = 0, fthighlight = 1, fterror = 2,
      has_savings = False, workbook_close = (\<lambda>path. None), os_remove = (\<lambda>path. Some OSError)\<rparr>"

text \<open>A fragment as the renderer keeps it: nothing of a blank one.\<close>

definition drop_blank :: "string \<Rightarrow> string" where
  "drop_blank fragment = (if blank fragment then [] else fragment)"

text \<open>
  The position of the first occurrence of \<open>x\<close> in \<open>xs\<close> (the length of \<open>xs\<close> when
  there is none).
\<close>

definition first_index :: "'a list \<Rightarrow> 'a \<Rightarrow> nat" where
  "first_index xs x = length (takeWhile (\<lambda>y. y \<noteq> x) xs)"

section \<open>The pattern scanner\<close>

lemma length_re_split_from:
  "length (re_split_from acc s) = Suc (length (re_findall s))"
  by (induction acc s rule: re_split_from.induct) (auto split: option.splits)

lemma length_re_split: "length (re_split s) = Suc (length (re_findall s))"
  by (simp add: re_split_def length_re_split_from)

lemma interleave_re_split_from:
  "interleave (re_split_from acc s) (re_findall s) = acc @ s"
proof (induction acc s rule: re_split_from.induct)
  case (1 acc)
  show ?case by simp
next
  case (2 acc c cs)
  show ?case
  proof (cases "match_var (c # cs)")
    case None
    with 2 show ?thesis by simp
  next
    case (Some p)
    obtain tok rest where p: "p = (tok, rest)" by (cases p)
    from Some p have m: "match_var (c # cs) = Some (tok, rest)" by simp
    have sp: "re_split_from acc (c # cs) = acc # re_split_from [] rest"
      and fa: "re_findall (c # cs) = tok # re_findall rest"
      using m by simp_all
    have "interleave (re_split_from acc (c # cs)) (re_findall (c # cs)) = acc @ tok @ rest"
      unfolding sp fa using 2(2)[OF m refl] by simp
    with match_var_SomeD(1)[OF m] show ?thesis by simp
  qed
qed

lemma is_token_match_var: "match_var s = Some (tok, rest) \<Longrightarrow> is_token tok"
  using match_var_SomeD(2,3)[of s tok rest]
  by (auto simp: is_token_def list_all_iff dest: set_takeWhileD)

lemma is_token_re_findall: "t \<in> set (re_findall s) \<Longrightarrow> is_token t"
proof (induction s rule: re_findall.induct)
  case 1
  then show ?case by simp
next
  case (2 c cs)
  then show ?case
    by (auto split: option.splits dest: is_token_match_var)
qed

lemma blank_Nil: "blank []"
  by (simp add: blank_def)

lemma encode_append: "encode a b c (xs @ ys) = encode a b c xs @ encode a b c ys"
  by (simp add: encode_def)

lemma encode_literal_spec:
  "encode ftb fthl fte (literal_spec lit) = (if \<not> blank lit then [Fmt ftb, Txt lit] else [])"
  by (simp add: encode_def literal_spec_def)

lemma encode_resolve_spec:
  "encode ftb fthl fte [resolve_spec repl tok] =
     (if \<not> blank (dict_get repl tok []) then [Fmt fthl, Txt (dict_get repl tok [])]
      else [Fmt fte, Txt tok])"
  by (auto simp: encode_def resolve_spec_def dict_get_def blank_def split: option.splits)

lemma format_tokens_emit:
  assumes "length non_reg = Suc (length reg)" and "k \<le> length reg"
  shows "(case format_tokens repl ftb fthl fte non_reg reg [k..<length reg] fl of
            Inl e \<Rightarrow> Inl e
          | Inr format_line \<Rightarrow>
              (case getlast non_reg of
                 Inl e \<Rightarrow> Inl e
               | Inr lit \<Rightarrow>
                   Inr (if \<not> blank lit then format_line @ [Fmt ftb, Txt lit] else format_line)))
         = Inr (fl @ encode ftb fthl fte (emit_spec repl (drop k non_reg) (drop k reg)))"
  using assms
proof (induction "length reg - k" arbitrary: k fl)
  case 0
  then have k: "k = length reg" by simp
  from 0(2) k have ne: "non_reg \<noteq> []" by auto
  from 0(2) k have lt: "k < length non_reg" by simp
  from 0(2) k have "drop (Suc k) non_reg = []" by simp
  with Cons_nth_drop_Suc[OF lt, symmetric] have "drop k non_reg = [non_reg ! k]" by simp
  moreover from 0(2) k ne have "last non_reg = non_reg ! k"
    by (simp add: last_conv_nth)
  ultimately have d: "drop k non_reg = [last non_reg]" by simp
  with k ne show ?case
    by (simp add: getlast_def encode_literal_spec)
next
  case (Suc n)
  then have k: "k < length reg" "k < length non_reg" by simp_all
  have u: "[k..<length reg] = k # [Suc k..<length reg]"
    using k by (simp add: upt_conv_Cons)
  have dn: "drop k non_reg = non_reg ! k # drop (Suc k) non_reg"
    using k by (simp add: Cons_nth_drop_Suc)
  have dr: "drop k reg = reg ! k # drop (Suc k) reg"
    using k by (simp add: Cons_nth_drop_Suc)
  have n: "n = length reg - Suc k" using Suc(2) by simp
  have le: "Suc k \<le> length reg" using k by simp
  note IH = Suc(1)[OF n Suc(3) le]
  show ?case
    unfolding u dn dr
    by (simp add: getitem_def k Let_def IH encode_append[symmetric] encode_literal_spec encode_resolve_spec
          del: upt_Suc)
       (simp add: encode_def literal_spec_def resolve_spec_def dict_get_def blank_Nil split: option.splits)
qed

lemma format_one_line_eq:
  "format_one_line repl ftb fthl fte line = Inr (encode ftb fthl fte (render_line_spec repl line))"
  using format_tokens_emit[where non_reg = "re_split line" and reg = "re_findall line" and k = 0
      and repl = repl and ftb = ftb and fthl = fthl and fte = fte and fl = "[]"]
  by (simp add: format_one_line_def Let_def length_re_split render_line_spec_def)

lemma format_lines_eq:
  "format_lines repl ftb fthl fte lines acc =
     Inr (acc @ map (\<lambda>line. encode ftb fthl fte (render_line_spec repl line)) lines)"
  by (induction lines arbitrary: acc) (simp_all add: format_one_line_eq)

lemma sub_get_string_eq:
  "sub_get_string cfg repl ftb fthl fte =
     Inr (map (\<lambda>line. encode ftb fthl fte (render_line_spec repl line)) (splitlines cfg))"
  by (simp add: sub_get_string_def format_lines_eq)

section \<open>Claims about the renderer\<close>

text \<open>
  C10. Splitting a line on the placeholder pattern gives exactly one fragment more than
  there are matches, so every access \<^verbatim>\<open>non_reg[i]\<close> of the loop and the final access
  \<^verbatim>\<open>non_reg[-1]\<close> are inside the list, and the renderer returns a result, one rich
  line per line of the text, for every text and every mapping: it never raises.
\<close>

theorem C10_split_findall_in_bounds:
  "length (re_split line) = length (re_findall line) + 1
   \<and> (\<forall>i < length (re_findall line). getitem (re_split line) i = Inr (re_split line ! i))
   \<and> getlast (re_split line) = Inr (last (re_split line))
   \<and> (\<exists>out. sub_get_string cfg repl ftb fthl fte = Inr out \<and> length out = length (splitlines cfg))"
proof -
  have len: "length (re_split line) = length (re_findall line) + 1"
    by (simp add: length_re_split)
  have idx: "\<forall>i < length (re_findall line). getitem (re_split line) i = Inr (re_split line ! i)"
    by (simp add: getitem_def len)
  have "re_split line \<noteq> []"
    using len by auto
  then have lst: "getlast (re_split line) = Inr (last (re_split line))"
    by (simp add: getlast_def)
  have "\<exists>out. sub_get_string cfg repl ftb fthl fte = Inr out \<and> length out = length (splitlines cfg)"
    by (simp add: sub_get_string_eq)
  with len idx lst show ?thesis by blast
qed

theorem C10_split_findall_in_bounds_witness:
  "(0::nat) < length (re_findall ''a$b$c'')
   \<and> length (re_split ''a$b$c'') = 2
   \<and> getitem (re_split ''a$b$c'') 0 = Inr ''a''
   \<and> getlast (re_split ''a$b$c'') = Inr ''c''
   \<and> (\<exists>out. sub_get_string ''a$b$c'' (map_of [(''$b$'', ''x'')]) (0::nat) 1 2 = Inr out \<and> length out = 1)"
proof -
  have f: "re_findall ''a$b$c'' = [''$b$'']" by code_simp
  have s: "re_split ''a$b$c'' = [''a'', ''c'']" by code_simp
  have l: "splitlines ''a$b$c'' = [''a$b$c'']" by code_simp
  from C10_split_findall_in_bounds
         [of "''a$b$c''" "''a$b$c''" "map_of [(''$b$'', ''x'')]" "0::nat" 1 2]
  show ?thesis
    unfolding f s l by simp
qed

text \<open>
  C1. For every text and every mapping the renderer returns, line by line, what the
  specification describes: the line is cut into fragments and matches of the pattern that
  alternate and together give the line back, with one fragment more than matches; for
  each match in turn a non-blank fragment in front of it is a LITERAL segment, the match
  is a FILLED segment with the mapped value when the mapping has a non-blank value for
  it and an UNRESOLVED segment with the text of the token otherwise; the fragment behind
  the last match comes last, when it is not blank. Each occurrence of a token is looked
  up on its own.
\<close>

theorem C1_render_refines_spec:
  "sub_get_string cfg repl ftb fthl fte =
     Inr (map (\<lambda>line. encode ftb fthl fte (render_line_spec repl line)) (splitlines cfg))
   \<and> interleave (re_split line) (re_findall line) = line
   \<and> length (re_split line) = length (re_findall line) + 1
   \<and> (\<forall>t \<in> set (re_findall line). is_token t)"
  using interleave_re_split_from[of "[]" line]
  by (simp add: sub_get_string_eq re_split_def length_re_split_from is_token_re_findall)

theorem C1_render_refines_spec_witness:
  "''$HOST$'' \<in> set (re_findall ''host=$HOST$'')
   \<and> is_token ''$HOST$''
   \<and> sub_get_string (''host=$HOST$'' @ [CHR 0x0A] @ ''port=$PORT$'')
         (map_of [(''$HOST$'', ''db01''), (''$PORT$'', '''')]) (0::nat) 1 2
       = Inr [[Fmt 0, Txt ''host='', Fmt 1, Txt ''db01''],
              [Fmt 0, Txt ''port='', Fmt 2, Txt ''$PORT$'']]
   \<and> render_line_spec (map_of [(''$HOST$'', ''db01''), (''$PORT$'', '''')]) ''host=$HOST$''
       = [(LITERAL, ''host=''), (FILLED, ''db01'')]
   \<and> render_line_spec (map_of [(''$A$'', ''x'')]) ''$A$$A$'' = [(FILLED, ''x''), (FILLED, ''x'')]"
proof -
  let ?m = "map_of [(''$HOST$'', ''db01''), (''$PORT$'', '''')]"
  let ?T = "''host=$HOST$'' @ [CHR 0x0A] @ ''port=$PORT$''"
  note c1 = C1_render_refines_spec[of ?T ?m "0::nat" 1 2 "''host=$HOST$''"]
  have mem: "''$HOST$'' \<in> set (re_findall ''host=$HOST$'')" by code_simp
  with c1 have tok: "is_token ''$HOST$''" by blast
  have "map (\<lambda>line. encode (0::nat) 1 2 (render_line_spec ?m line)) (splitlines ?T)
        = [[Fmt 0, Txt ''host='', Fmt 1, Txt ''db01''], [Fmt 0, Txt ''port='', Fmt 2, Txt ''$PORT$'']]"
    by code_simp
  with c1 have r: "sub_get_string ?T ?m (0::nat) 1 2
        = Inr [[Fmt 0, Txt ''host='', Fmt 1, Txt ''db01''], [Fmt 0, Txt ''port='', Fmt 2, Txt ''$PORT$'']]"
    by simp
  have a: "render_line_spec ?m ''host=$HOST$'' = [(LITERAL, ''host=''), (FILLED, ''db01'')]"
    by code_simp
  have b: "render_line_spec (map_of [(''$A$'', ''x'')]) ''$A$$A$'' = [(FILLED, ''x''), (FILLED, ''x'')]"
    by code_simp
  from mem tok r a b show ?thesis by blast
qed

text \<open>
  C5, as the code has it. The scan of the empty template returns the text and no token.
  \<^verbatim>\<open>''.splitlines()\<close> is the empty list, so the renderer returns no line at all for the
  empty template, not one line without segments.
\<close>

theorem C5_empty_template_no_lines:
  "fs p = Some [] \<Longrightarrow>
     get_template_vars fs p = Inr ([], []) \<and> sub_get_string [] m ftb fthl fte = Inr []"
  by (simp add: get_template_vars_def sub_get_string_def splitlines_def)

theorem C5_empty_template_no_lines_witness:
  "map_of [(''t.txt'', [])] ''t.txt'' = Some []
   \<and> get_template_vars (map_of [(''t.txt'', [])]) ''t.txt'' = Inr ([], [])
   \<and> sub_get_string [] (map_of [(''$A$'', ''x'')]) (0::nat) 1 2 = Inr []"
proof -
  have h: "map_of [(''t.txt'', [])] ''t.txt'' = Some []" by simp
  from h C5_empty_template_no_lines
           [where fs = "map_of [(''t.txt'', [])]" and p = "''t.txt''"
              and m = "map_of [(''$A$'', ''x'')]" and ftb = "0::nat" and fthl = 1 and fte = 2]
  show ?thesis by simp
qed

text \<open>
  C5 as stated fails: the rendering of the empty template is not a sequence of one empty
  line.
\<close>

theorem C5_empty_template_counterexample:
  "sub_get_string [] (map_of [(''$A$'', ''x'')]) (0::nat) 1 2 \<noteq> Inr [[]]"
  by code_simp

section \<open>Claims about the scanner and the form\<close>

lemma collect_vars_snoc:
  "collect_vars acc (xs @ [x]) =
     (if x \<in> set (collect_vars acc xs) then collect_vars acc xs else collect_vars acc xs @ [x])"
  by (induction xs arbitrary: acc) auto

lemma set_collect_vars: "set (collect_vars acc xs) = set acc \<union> set xs"
  by (induction xs arbitrary: acc) auto

lemma distinct_collect_vars: "distinct acc \<Longrightarrow> distinct (collect_vars acc xs)"
  by (induction xs arbitrary: acc) auto

lemma first_index_less: "x \<in> set xs \<Longrightarrow> first_index xs x < length xs"
  unfolding first_index_def
  by (induction xs) auto

lemma first_index_append_mem: "x \<in> set xs \<Longrightarrow> first_index (xs @ ys) x = first_index xs x"
  unfolding first_index_def
  by (induction xs) auto

lemma first_index_append_new: "x \<notin> set xs \<Longrightarrow> first_index (xs @ [x]) x = length xs"
  unfolding first_index_def
  by (induction xs) auto

lemma collect_vars_first_occurrence:
  "i < j \<Longrightarrow> j < length (collect_vars [] xs) \<Longrightarrow>
     first_index xs (collect_vars [] xs ! i) < first_index xs (collect_vars [] xs ! j)"
proof (induction xs arbitrary: i j rule: rev_induct)
  case Nil
  then show ?case by simp
next
  case (snoc x xs)
  let ?vl = "collect_vars [] xs"
  have sv: "set ?vl = set xs" by (simp add: set_collect_vars)
  show ?case
  proof (cases "x \<in> set xs")
    case True
    then have eq: "collect_vars [] (xs @ [x]) = ?vl"
      by (simp add: collect_vars_snoc sv)
    from snoc.prems eq have j: "j < length ?vl" by simp
    with snoc.prems have i: "i < length ?vl" by simp
    from i j sv have "?vl ! i \<in> set xs" "?vl ! j \<in> set xs"
      by (metis nth_mem)+
    with snoc.IH[OF snoc.prems(1) j] eq show ?thesis
      by (simp add: first_index_append_mem)
  next
    case False
    then have eq: "collect_vars [] (xs @ [x]) = ?vl @ [x]"
      by (simp add: collect_vars_snoc sv)
    from snoc.prems eq have j: "j \<le> length ?vl" by simp
    with snoc.prems have i: "i < length ?vl" by simp
    with sv have im: "?vl ! i \<in> set xs" by (metis nth_mem)
    show ?thesis
    proof (cases "j < length ?vl")
      case True
      with sv have "?vl ! j \<in> set xs" by (metis nth_mem)
      with snoc.IH[OF snoc.prems(1) True] eq im i True show ?thesis
        by (simp add: first_index_append_mem nth_append)
    next
      case False
      with j have "j = length ?vl" by simp
      with eq i im \<open>x \<notin> set xs\<close> first_index_less[OF im] show ?thesis
        by (simp add: nth_append first_index_append_mem first_index_append_new)
    qed
  qed
qed

text \<open>
  C4. Scanning a readable template returns the text unchanged together with the matches
  of the pattern, each once and in the order of their first occurrences in the text: the
  list has no duplicate, holds exactly the matches of a left-to-right scan, and an entry
  stands before another exactly as its first match stands before the other's. A text
  without a match, the empty text among them, gives the empty list and no error.
\<close>

theorem C4_scan_unique_first_occurrence:
  assumes "fs filepath = Some T"
  shows "\<exists>var_list. get_template_vars fs filepath = Inr (T, var_list)
           \<and> distinct var_list
           \<and> set var_list = set (re_findall T)
           \<and> (\<forall>t \<in> set var_list. is_token t)
           \<and> (\<forall>i j. i < j \<and> j < length var_list \<longrightarrow>
                  first_index (re_findall T) (var_list ! i) < first_index (re_findall T) (var_list ! j))
           \<and> (re_findall T = [] \<longrightarrow> var_list = [])
           \<and> (T = [] \<longrightarrow> var_list = [])"
proof -
  let ?vl = "collect_vars [] (re_findall T)"
  have "get_template_vars fs filepath = Inr (T, ?vl)"
    using assms by (simp add: get_template_vars_def)
  moreover have "distinct ?vl" by (simp add: distinct_collect_vars)
  moreover have "set ?vl = set (re_findall T)" by (simp add: set_collect_vars)
  moreover have "\<forall>t \<in> set ?vl. is_token t"
    by (simp add: set_collect_vars is_token_re_findall)
  moreover have "\<forall>i j. i < j \<and> j < length ?vl \<longrightarrow>
                  first_index (re_findall T) (?vl ! i) < first_index (re_findall T) (?vl ! j)"
    using collect_vars_first_occurrence by blast
  moreover have "re_findall T = [] \<longrightarrow> ?vl = []" by simp
  moreover have "T = [] \<longrightarrow> ?vl = []" by simp
  ultimately show ?thesis by blast
qed

theorem C4_scan_unique_first_occurrence_witness:
  "map_of [(''t.txt'', ''$B$ $A$ $B$ x $C$$A$'')] ''t.txt'' = Some ''$B$ $A$ $B$ x $C$$A$''
   \<and> get_template_vars (map_of [(''t.txt'', ''$B$ $A$ $B$ x $C$$A$'')]) ''t.txt''
       = Inr (''$B$ $A$ $B$ x $C$$A$'', [''$B$'', ''$A$'', ''$C$''])
   \<and> is_token ''$B$''
   \<and> first_index (re_findall ''$B$ $A$ $B$ x $C$$A$'') ''$A$''
         < first_index (re_findall ''$B$ $A$ $B$ x $C$$A$'') ''$C$''"
proof -
  let ?T = "''$B$ $A$ $B$ x $C$$A$''"
  let ?fs = "map_of [(''t.txt'', ?T)]"
  let ?vl = "[''$B$'', ''$A$'', ''$C$'']"
  have h: "?fs ''t.txt'' = Some ?T" by simp
  have g: "get_template_vars ?fs ''t.txt'' = Inr (?T, ?vl)" by code_simp
  from C4_scan_unique_first_occurrence[of ?fs "''t.txt''" ?T, OF h]
  obtain var_list where v: "get_template_vars ?fs ''t.txt'' = Inr (?T, var_list)"
    and tk: "\<forall>t \<in> set var_list. is_token t"
    and ord: "\<forall>i j. i < j \<and> j < length var_list \<longrightarrow>
                first_index (re_findall ?T) (var_list ! i) < first_index (re_findall ?T) (var_list ! j)"
    by blast
  from v g have vl: "var_list = ?vl" by simp
  have "''$B$'' \<in> set ?vl" by simp
  with tk vl have t: "is_token ''$B$''" by blast
  have "(1::nat) < 2 \<and> 2 < length ?vl" by simp
  with ord vl have "first_index (re_findall ?T) (?vl ! 1) < first_index (re_findall ?T) (?vl ! 2)"
    by blast
  then have o: "first_index (re_findall ?T) ''$A$'' < first_index (re_findall ?T) ''$C$''"
    by simp
  from h g t o show ?thesis by blast
qed

lemma sheet_of_append: "sheet_of (xs @ ys) = sheet_of xs ++ sheet_of ys"
  by (induction xs) (auto split: option.splits)

lemma sheet_of_labels:
  "sheet_of (map (\<lambda>(idx, var). Write idx 0 var f) (enumerate n xs)) (i, 0) =
     (if n \<le> i \<and> i < n + length xs then Some (Plain (Txt (xs ! (i - n))) f) else None)"
proof (induction xs arbitrary: n)
  case Nil
  then show ?case by simp
next
  case (Cons x xs)
  show ?case
  proof (cases "i = n")
    case True
    with Cons.IH[of "Suc n"] show ?thesis
      by (simp add: map_add_def)
  next
    case False
    then show ?thesis
      by (auto simp: Cons.IH[of "Suc n"] map_add_def nth_Cons' Suc_diff_le split: option.splits)
  qed
qed

text \<open>
  C7. In the form generated for a token list, the cell in row \<open>i\<close> of column 0 holds
  the \<open>i\<close>-th token, for every \<open>i\<close> below the length of the list: the labels are written
  after the blank grid and replace its cells.
\<close>

theorem C7_form_labels_in_token_order:
  "i < length var_list \<Longrightarrow>
     sheet_of (snd (create_excel_form tmp_name ftb var_list)) (i, 0)
       = Some (Plain (Txt (var_list ! i)) ftb)"
  by (simp add: create_excel_form_def sheet_of_append map_add_def sheet_of_labels)

theorem C7_form_labels_in_token_order_witness:
  "(0::nat) < length [''$A$'', ''$B$''] \<and> (1::nat) < length [''$A$'', ''$B$'']
   \<and> sheet_of (snd (create_excel_form ''form.xlsx'' (0::nat) [''$A$'', ''$B$''])) (0, 0)
        = Some (Plain (Txt ''$A$'') 0)
   \<and> sheet_of (snd (create_excel_form ''form.xlsx'' (0::nat) [''$A$'', ''$B$''])) (1, 0)
        = Some (Plain (Txt ''$B$'') 0)"
proof -
  have h0: "(0::nat) < length [''$A$'', ''$B$'']" and h1: "(1::nat) < length [''$A$'', ''$B$'']"
    by simp_all
  from C7_form_labels_in_token_order[OF h0, where tmp_name = "''form.xlsx''" and ftb = "0::nat"]
       C7_form_labels_in_token_order[OF h1, where tmp_name = "''form.xlsx''" and ftb = "0::nat"] h0 h1
  show ?thesis by simp
qed

section \<open>Claims about the writer\<close>

lemma Fmt_in_encode:
  "Fmt f \<in> set (encode ftb fthl fte segs) \<longleftrightarrow> (\<exists>k \<in> set (map fst segs). style_of ftb fthl fte k = f)"
  by (induction segs) (auto simp: encode_def)

lemma Fmt_in_encode_distinct:
  assumes "distinct [ftb, fthl, fte]"
  shows "Fmt ftb \<in> set (encode ftb fthl fte segs) \<longleftrightarrow> has_kind LITERAL segs"
    and "Fmt fthl \<in> set (encode ftb fthl fte segs) \<longleftrightarrow> has_kind FILLED segs"
    and "Fmt fte \<in> set (encode ftb fthl fte segs) \<longleftrightarrow> has_kind UNRESOLVED segs"
proof -
  have k: "\<And>k. style_of ftb fthl fte k = ftb \<longleftrightarrow> k = LITERAL"
          "\<And>k. style_of ftb fthl fte k = fthl \<longleftrightarrow> k = FILLED"
          "\<And>k. style_of ftb fthl fte k = fte \<longleftrightarrow> k = UNRESOLVED"
    using assms by (case_tac k; auto)+
  show "Fmt ftb \<in> set (encode ftb fthl fte segs) \<longleftrightarrow> has_kind LITERAL segs"
    unfolding Fmt_in_encode has_kind_def k by auto
  show "Fmt fthl \<in> set (encode ftb fthl fte segs) \<longleftrightarrow> has_kind FILLED segs"
    unfolding Fmt_in_encode has_kind_def k by auto
  show "Fmt fte \<in> set (encode ftb fthl fte segs) \<longleftrightarrow> has_kind UNRESOLVED segs"
    unfolding Fmt_in_encode has_kind_def k by auto
qed

lemma getlast_encode:
  "segs \<noteq> [] \<Longrightarrow> getlast (encode ftb fthl fte segs) = Inr (Txt (snd (last segs)))"
proof (induction segs rule: rev_induct)
  case Nil
  then show ?case by simp
next
  case (snoc s segs)
  obtain k t where "s = (k, t)" by (cases s)
  then show ?case by (simp add: encode_def getlast_def)
qed

lemma has_kind_nonempty: "has_kind k segs \<Longrightarrow> segs \<noteq> []"
  by (auto simp: has_kind_def)

lemma no_kind_empty:
  "\<not> has_kind LITERAL segs \<Longrightarrow> \<not> has_kind FILLED segs \<Longrightarrow> \<not> has_kind UNRESOLVED segs \<Longrightarrow> segs = []"
proof (cases segs)
  case Nil
  then show ?thesis by simp
next
  case (Cons s rest)
  assume "\<not> has_kind LITERAL segs" "\<not> has_kind FILLED segs" "\<not> has_kind UNRESOLVED segs"
  with Cons show ?thesis
    by (cases "fst s") (auto simp: has_kind_def)
qed

lemma write_line_encode:
  assumes "distinct [ftb, fthl, fte]"
  shows "write_line ftb fthl fte row col (encode ftb fthl fte segs) =
     Inr (if has_kind LITERAL segs \<and> (has_kind FILLED segs \<or> has_kind UNRESOLVED segs)
          then [WriteRichString row col (encode ftb fthl fte segs)]
          else if has_kind FILLED segs
          then [WriteString row col (Txt (strip (snd (last segs)))) fthl]
          else if has_kind UNRESOLVED segs
          then [WriteString row col (Txt (strip (snd (last segs)))) fte]
          else if has_kind LITERAL segs
          then [WriteString row col (Txt (snd (last segs))) ftb]
          else [])"
  unfolding write_line_def Fmt_in_encode_distinct[OF assms]
  by (auto simp: getlast_encode dest: has_kind_nonempty)

lemma only_kind_iff: "only_kind k segs \<longleftrightarrow> segs \<noteq> [] \<and> (\<forall>s \<in> set segs. fst s = k)"
  by (simp add: only_kind_def list_all_iff)

lemma has_kind_iff: "has_kind k segs \<longleftrightarrow> (\<exists>s \<in> set segs. fst s = k)"
  by (auto simp: has_kind_def)

lemma kind_cases: "k = LITERAL \<or> k = FILLED \<or> k = UNRESOLVED"
  by (cases k) auto

lemma only_unresolved_iff:
  "only_kind UNRESOLVED segs \<longleftrightarrow>
     has_kind UNRESOLVED segs \<and> \<not> has_kind LITERAL segs \<and> \<not> has_kind FILLED segs"
proof
  assume "only_kind UNRESOLVED segs"
  then show "has_kind UNRESOLVED segs \<and> \<not> has_kind LITERAL segs \<and> \<not> has_kind FILLED segs"
    unfolding only_kind_iff has_kind_iff by (cases segs) auto
next
  assume a: "has_kind UNRESOLVED segs \<and> \<not> has_kind LITERAL segs \<and> \<not> has_kind FILLED segs"
  then have "segs \<noteq> []" by (auto dest: has_kind_nonempty)
  moreover have "\<forall>s \<in> set segs. fst s = UNRESOLVED"
    using a kind_cases unfolding has_kind_iff by blast
  ultimately show "only_kind UNRESOLVED segs"
    by (simp add: only_kind_iff)
qed

lemma only_literal_iff:
  "only_kind LITERAL segs \<longleftrightarrow>
     has_kind LITERAL segs \<and> \<not> has_kind UNRESOLVED segs \<and> \<not> has_kind FILLED segs"
proof
  assume "only_kind LITERAL segs"
  then show "has_kind LITERAL segs \<and> \<not> has_kind UNRESOLVED segs \<and> \<not> has_kind FILLED segs"
    unfolding only_kind_iff has_kind_iff by (cases segs) auto
next
  assume a: "has_kind LITERAL segs \<and> \<not> has_kind UNRESOLVED segs \<and> \<not> has_kind FILLED segs"
  then have "segs \<noteq> []" by (auto dest: has_kind_nonempty)
  moreover have "\<forall>s \<in> set segs. fst s = LITERAL"
    using a kind_cases unfolding has_kind_iff by blast
  ultimately show "only_kind LITERAL segs"
    by (simp add: only_kind_iff)
qed

text \<open>
  C3, as the code has it. With three different formats, the writer treats a rendered line
  by the first case that applies: (1) a LITERAL segment together with a FILLED or an
  UNRESOLVED one: the whole line as a rich string; (2) otherwise a FILLED segment, with
  or without UNRESOLVED ones beside it: the text of the last segment, white space removed
  at both ends, in the highlight format; (3) UNRESOLVED segments only: the text of the
  last segment, white space removed at both ends, in the error format; (4) LITERAL
  segments only: the text of the last segment as it is, in the body format. Nothing is
  written exactly for the line without segments.
\<close>

theorem C3_writer_cases:
  assumes "distinct [ftb, fthl, fte]"
  shows "write_line ftb fthl fte row col (encode ftb fthl fte segs) =
     Inr (if has_kind LITERAL segs \<and> (has_kind FILLED segs \<or> has_kind UNRESOLVED segs)
          then [WriteRichString row col (encode ftb fthl fte segs)]
          else if has_kind FILLED segs
          then [WriteString row col (Txt (strip (snd (last segs)))) fthl]
          else if only_kind UNRESOLVED segs
          then [WriteString row col (Txt (strip (snd (last segs)))) fte]
          else if only_kind LITERAL segs
          then [WriteString row col (Txt (snd (last segs))) ftb]
          else [])
     \<and> (write_line ftb fthl fte row col (encode ftb fthl fte segs) = Inr [] \<longleftrightarrow> segs = [])"
proof -
  have 1: "write_line ftb fthl fte row col (encode ftb fthl fte segs) =
     Inr (if has_kind LITERAL segs \<and> (has_kind FILLED segs \<or> has_kind UNRESOLVED segs)
          then [WriteRichString row col (encode ftb fthl fte segs)]
          else if has_kind FILLED segs
          then [WriteString row col (Txt (strip (snd (last segs)))) fthl]
          else if only_kind UNRESOLVED segs
          then [WriteString row col (Txt (strip (snd (last segs)))) fte]
          else if only_kind LITERAL segs
          then [WriteString row col (Txt (snd (last segs))) ftb]
          else [])"
    unfolding write_line_encode[OF assms] only_unresolved_iff only_literal_iff
    by auto
  have 2: "write_line ftb fthl fte row col (encode ftb fthl fte segs) = Inr [] \<longleftrightarrow> segs = []"
    unfolding write_line_encode[OF assms]
    using no_kind_empty[of segs] has_kind_nonempty[of _ segs]
    by auto
  from 1 2 show ?thesis by blast
qed

theorem C3_writer_cases_witness:
  "distinct [0::nat, 1, 2]
   \<and> write_line (0::nat) 1 2 3 4 (encode 0 1 2 [(LITERAL, ''port=''), (UNRESOLVED, ''$PORT$'')])
       = Inr [WriteRichString 3 4 [Fmt 0, Txt ''port='', Fmt 2, Txt ''$PORT$'']]
   \<and> write_line (0::nat) 1 2 3 4 (encode 0 1 2 [(UNRESOLVED, ''$A$''), (FILLED, '' x '')])
       = Inr [WriteString 3 4 (Txt ''x'') 1]
   \<and> write_line (0::nat) 1 2 3 4 (encode 0 1 2 [(UNRESOLVED, ''$A$'')])
       = Inr [WriteString 3 4 (Txt ''$A$'') 2]
   \<and> write_line (0::nat) 1 2 3 4 (encode 0 1 2 [(LITERAL, '' a '')])
       = Inr [WriteString 3 4 (Txt '' a '') 0]
   \<and> write_line (0::nat) 1 2 3 4 (encode 0 1 2 []) = Inr []"
proof -
  have d: "distinct [0::nat, 1, 2]" by simp
  note c3 = C3_writer_cases[OF d, of 3 4]
  have a: "write_line (0::nat) 1 2 3 4 (encode 0 1 2 [(LITERAL, ''port=''), (UNRESOLVED, ''$PORT$'')])
       = Inr [WriteRichString 3 4 [Fmt 0, Txt ''port='', Fmt 2, Txt ''$PORT$'']]"
    using c3[of "[(LITERAL, ''port=''), (UNRESOLVED, ''$PORT$'')]"]
    by (simp add: has_kind_def encode_def)
  have "strip '' x '' = ''x''" by code_simp
  then have b: "write_line (0::nat) 1 2 3 4 (encode 0 1 2 [(UNRESOLVED, ''$A$''), (FILLED, '' x '')])
       = Inr [WriteString 3 4 (Txt ''x'') 1]"
    using c3[of "[(UNRESOLVED, ''$A$''), (FILLED, '' x '')]"]
    by (simp add: has_kind_def)
  have "strip ''$A$'' = ''$A$''" by code_simp
  then have c: "write_line (0::nat) 1 2 3 4 (encode 0 1 2 [(UNRESOLVED, ''$A$'')])
       = Inr [WriteString 3 4 (Txt ''$A$'') 2]"
    using c3[of "[(UNRESOLVED, ''$A$'')]"]
    by (simp add: has_kind_def only_kind_def)
  have e: "write_line (0::nat) 1 2 3 4 (encode 0 1 2 [(LITERAL, '' a '')])
       = Inr [WriteString 3 4 (Txt '' a '') 0]"
    using c3[of "[(LITERAL, '' a '')]"]
    by (simp add: has_kind_def only_kind_def)
  have f: "write_line (0::nat) 1 2 3 4 (encode 0 1 2 []) = Inr []"
    using c3[of "[]"] by (simp add: has_kind_def only_kind_def)
  from d a b c e f show ?thesis by blast
qed

text \<open>
  C3 as stated fails in two ways. The line of one FILLED segment \<open>'' x''\<close> is written as
  \<open>''x''\<close>: \<^verbatim>\<open>strip()\<close> trims both ends, not the right one only. The line of a FILLED and
  an UNRESOLVED segment, which the renderer returns for \<^verbatim>\<open>$A$$B$\<close> when only \<^verbatim>\<open>$A$\<close> has
  a value, is none of the four cases of the claim and is yet written, in the highlight
  format.
\<close>

theorem C3_writer_cases_counterexample:
  "write_line (0::nat) 1 2 0 0 (encode 0 1 2 [(FILLED, '' x'')])
     \<noteq> Inr (write_line_spec 0 1 2 0 0 [(FILLED, '' x'')])
   \<and> write_line (0::nat) 1 2 0 0 (encode 0 1 2 [(FILLED, ''x''), (UNRESOLVED, ''$B$'')])
     \<noteq> Inr (write_line_spec 0 1 2 0 0 [(FILLED, ''x''), (UNRESOLVED, ''$B$'')])"
  by code_simp

section \<open>Claims about the run\<close>

lemma write_line_encode_ok:
  "\<exists>calls. write_line ftb fthl fte row col (encode ftb fthl fte segs) = Inr calls"
proof (cases "segs = []")
  case True
  then show ?thesis by (simp add: write_line_def encode_def)
next
  case False
  then show ?thesis
    by (simp add: write_line_def getlast_encode)
qed



lemma write_lines_eq:
  assumes "\<forall>l \<in> set lines. \<forall>r. \<exists>calls. write_line ftb fthl fte r col l = Inr calls"
  shows "write_lines ftb fthl fte col lines row ws =
           (ws @ concat (map (\<lambda>(r, l). calls_of (write_line ftb fthl fte r col l)) (enumerate row lines)),
            None)"
  using assms
proof (induction lines arbitrary: row ws)
  case Nil
  then show ?case by simp
next
  case (Cons l lines)
  from Cons.prems obtain calls where c: "write_line ftb fthl fte row col l = Inr calls"
    by (meson list.set_intros(1))
  from Cons.prems have "\<forall>l \<in> set lines. \<forall>r. \<exists>calls. write_line ftb fthl fte r col l = Inr calls"
    by simp
  from Cons.IH[OF this] c show ?case
    by (simp add: calls_of_def)
qed

lemma enumerate_map_upt:
  "map (\<lambda>(r, l). f r l) (enumerate 0 xs) = map (\<lambda>r. f r (xs ! r)) [0..<length xs]"
  by (rule nth_equalityI) (simp_all add: nth_enumerate_eq)

lemma sub_get_string_render_column:
  "sub_get_string template (repl_dict form col_idx) (ftbody env) (fthighlight env) (fterror env)
     = Inr (render_column env template form col_idx)"
  by (simp add: sub_get_string_eq render_column_def)


lemma render_column_lines_ok:
  "\<forall>l \<in> set (render_column env template form col_idx).
     \<forall>r. \<exists>calls. write_line (ftbody env) (fthighlight env) (fterror env) r c l = Inr calls"
  by (auto simp: render_column_def write_line_encode_ok)

lemma write_rich_table_render_column:
  "write_rich_table ws (render_column env template form col_idx)
      (ftbody env) (fthighlight env) (fterror env) 0 c 95
     = (ws @ column_calls env c (render_column env template form col_idx), None)"
  unfolding write_rich_table_def column_calls_def
  by (simp add: write_lines_eq[OF render_column_lines_ok] enumerate_map_upt)

lemma build_columns_eq:
  "build_columns env template form cols st =
     st\<lparr>log := log st @ concat (map (\<lambda>c. if has_savings env then [Savings 10] else []) cols),
        worksheet := worksheet st
          @ concat (map (\<lambda>col_idx. column_calls env (col_idx - 1) (render_column env template form col_idx)) cols)\<rparr>"
proof (induction cols arbitrary: st)
  case Nil
  then show ?case by simp
next
  case (Cons col_idx cols)
  show ?case
    by (simp add: sub_get_string_render_column write_rich_table_render_column Cons.IH logging_def)
qed

lemma upt_from_1: "[Suc 0..<n] = map Suc [0..<n - 1]"
  by (cases n) (simp_all add: map_Suc_upt del: upt_Suc)

lemma columns_shift:
  "concat (map (\<lambda>col_idx. F (col_idx - 1) col_idx) [1..<n])
     = concat (map (\<lambda>c. F c (Suc c)) [0..<n - 1])"
proof -
  have "map (\<lambda>col_idx. F (col_idx - 1) col_idx) [Suc 0..<n]
          = map (\<lambda>c. F c (Suc c)) [0..<n - 1]"
    unfolding upt_from_1[of n] by (simp add: comp_def)
  then show ?thesis by simp
qed

lemma worksheet_run:
  assumes "variable_file_path \<noteq> []" and "XLR env variable_file_path = Inr form"
  shows "worksheet (run env template variable_file_path output_report)
         = concat (map (\<lambda>c. column_calls env c (render_column env template form (Suc c)))
                     [0..<ncols form - 1])"
proof -
  have "worksheet (run env template variable_file_path output_report)
         = concat (map (\<lambda>col_idx. column_calls env (col_idx - 1) (render_column env template form col_idx))
                     [1..<ncols form])"
    using assms
    by (simp add: run_def Let_def logging_def build_columns_eq split: option.splits del: upt_Suc)
  also have "\<dots> = concat (map (\<lambda>c. column_calls env c (render_column env template form (Suc c)))
                     [0..<ncols form - 1])"
    by (rule columns_shift
          [of "\<lambda>c col_idx. column_calls env c (render_column env template form col_idx)" "ncols form"])
  finally show ?thesis .
qed







text \<open>
  C9. When the form has been read and the output workbook has been closed, the run ends
  without an exception whatever removing the form does: a failure of the removal is
  logged as an error, the final message follows it, and the calls on the output worksheet
  are the same as under any other behaviour of the removal.
\<close>

theorem C9_form_removal_best_effort:
  assumes "variable_file_path \<noteq> []" and "XLR env variable_file_path = Inr form"
    and "workbook_close env output_report = None"
  shows "raised (run env template variable_file_path output_report) = None
         \<and> closed (run env template variable_file_path output_report)
         \<and> worksheet (run env template variable_file_path output_report)
             = worksheet (run (env\<lparr>os_remove := rm\<rparr>) template variable_file_path output_report)
         \<and> (\<forall>e. os_remove env variable_file_path = Some e \<longrightarrow>
               removed (run env template variable_file_path output_report) = []
               \<and> (\<exists>pre. log (run env template variable_file_path output_report)
                            = pre @ [Error e, Info ''Variables Replaced!'']))
         \<and> (os_remove env variable_file_path = None \<longrightarrow>
               removed (run env template variable_file_path output_report) = [variable_file_path]
               \<and> (\<exists>pre. log (run env template variable_file_path output_report)
                            = pre @ [Info ''Variable form removed successfully'',
                                     Info ''Variables Replaced!'']))"
proof -
  let ?st = "run env template variable_file_path output_report"
  have x: "XLR (env\<lparr>os_remove := rm\<rparr>) variable_file_path = Inr form"
    using assms(2) by simp
  have w: "worksheet ?st
             = worksheet (run (env\<lparr>os_remove := rm\<rparr>) template variable_file_path output_report)"
    unfolding worksheet_run[OF assms(1,2)] worksheet_run[OF assms(1) x]
    by (simp add: column_calls_def render_column_def)
  have r: "raised ?st = None" and c: "closed ?st"
    using assms
    by (simp_all add: run_def Let_def logging_def build_columns_eq split: option.splits)
  have f: "\<forall>e. os_remove env variable_file_path = Some e \<longrightarrow>
               removed ?st = [] \<and> (\<exists>pre. log ?st = pre @ [Error e, Info ''Variables Replaced!''])"
    using assms
    by (simp add: run_def Let_def logging_def build_columns_eq)
  have s: "os_remove env variable_file_path = None \<longrightarrow>
               removed ?st = [variable_file_path]
               \<and> (\<exists>pre. log ?st = pre @ [Info ''Variable form removed successfully'',
                                     Info ''Variables Replaced!''])"
    using assms
    by (simp add: run_def Let_def logging_def build_columns_eq)
  from r c w f s show ?thesis by blast
qed

theorem C9_form_removal_best_effort_witness:
  "''f.xlsx'' \<noteq> [] \<and> XLR example_env ''f.xlsx'' = Inr example_form
   \<and> workbook_close example_env ''o.xlsx'' = None
   \<and> os_remove example_env ''f.xlsx'' = Some OSError
   \<and> raised (run example_env ''a=$A$'' ''f.xlsx'' ''o.xlsx'') = None
   \<and> closed (run example_env ''a=$A$'' ''f.xlsx'' ''o.xlsx'')
   \<and> removed (run example_env ''a=$A$'' ''f.xlsx'' ''o.xlsx'') = []
   \<and> worksheet (run example_env ''a=$A$'' ''f.xlsx'' ''o.xlsx'')
       = worksheet (run (example_env\<lparr>os_remove := (\<lambda>path. None)\<rparr>) ''a=$A$'' ''f.xlsx'' ''o.xlsx'')
   \<and> (\<exists>pre. log (run example_env ''a=$A$'' ''f.xlsx'' ''o.xlsx'')
                = pre @ [Error OSError, Info ''Variables Replaced!''])"
proof -
  have p: "''f.xlsx'' \<noteq> []" by simp
  have x: "XLR example_env ''f.xlsx'' = Inr example_form" by (simp add: example_env_def)
  have k: "workbook_close example_env ''o.xlsx'' = None" by (simp add: example_env_def)
  have o: "os_remove example_env ''f.xlsx'' = Some OSError" by (simp add: example_env_def)
  note c9 = C9_form_removal_best_effort[OF p x k, of "''a=$A$''" "\<lambda>path. None"]
  from c9 o have "removed (run example_env ''a=$A$'' ''f.xlsx'' ''o.xlsx'') = []
       \<and> (\<exists>pre. log (run example_env ''a=$A$'' ''f.xlsx'' ''o.xlsx'')
                = pre @ [Error OSError, Info ''Variables Replaced!''])"
    by blast
  with c9 p x k o show ?thesis by blast
qed

section \<open>Claims about rendering a whole template\<close>

lemma linebreak_not_word: "is_linebreak c \<Longrightarrow> \<not> is_word c"
  by (auto simp: is_linebreak_def is_word_def Let_def)

lemma linebreak_not_dollar: "is_linebreak c \<Longrightarrow> c \<noteq> CHR ''$''"
  by (auto simp: is_linebreak_def Let_def)

lemma match_var_append_Some:
  assumes "match_var s = Some (tok, r)"
  shows "match_var (s @ x) = Some (tok, r @ x)"
proof -
  from assms obtain cs where s: "s = CHR ''$'' # cs"
    by (auto simp: match_var_def split: list.splits if_splits)
  from assms s have d: "dropWhile is_word cs = CHR ''$'' # r"
    and t: "tok = CHR ''$'' # takeWhile is_word cs @ [CHR ''$'']"
    and w: "takeWhile is_word cs \<noteq> []"
    by (auto simp: match_var_def split: list.splits if_splits)
  from d have ex: "\<exists>y \<in> set cs. \<not> is_word y"
    by (metis dropWhile_eq_Nil_conv list.distinct(1))
  then have "dropWhile is_word (cs @ x) = dropWhile is_word cs @ x"
    and "takeWhile is_word (cs @ x) = takeWhile is_word cs"
    by (auto simp: dropWhile_append takeWhile_append)
  with s d t w show ?thesis
    by (simp add: match_var_def)
qed

lemma match_var_append_None:
  assumes "match_var (c # cs) = None" and "\<not> is_word b" and "b \<noteq> CHR ''$''"
  shows "match_var ((c # cs) @ b # rest) = None"
proof (cases "c = CHR ''$''")
  case False
  then show ?thesis by (simp add: match_var_def)
next
  case True
  show ?thesis
  proof (cases "\<forall>y \<in> set cs. is_word y")
    case all: True
    then have "dropWhile is_word (cs @ b # rest) = b # rest"
      using assms(2) by (simp add: dropWhile_append)
    with True assms(3) show ?thesis by (simp add: match_var_def)
  next
    case False
    then have "dropWhile is_word (cs @ b # rest) = dropWhile is_word cs @ b # rest"
      and "takeWhile is_word (cs @ b # rest) = takeWhile is_word cs"
      and "dropWhile is_word cs \<noteq> []"
      by (auto simp: dropWhile_append takeWhile_append)
    with True assms(1) show ?thesis
      by (auto simp: match_var_def split: list.splits if_splits)
  qed
qed

lemma re_findall_append_break:
  assumes "\<not> is_word b" and "b \<noteq> CHR ''$''"
  shows "re_findall (l @ b # rest) = re_findall l @ re_findall rest"
proof (induction l rule: re_findall.induct)
  case 1
  from assms(2) have "match_var (b # rest) = None" by (simp add: match_var_def)
  then show ?case by simp
next
  case (2 c cs)
  show ?case
  proof (cases "match_var (c # cs)")
    case None
    from match_var_append_None[OF None assms] None 2(1)[OF None] show ?thesis by simp
  next
    case (Some p)
    obtain tok r where p: "p = (tok, r)" by (cases p)
    with Some have m: "match_var (c # cs) = Some (tok, r)" by simp
    from match_var_append_Some[OF m, of "b # rest"] m 2(2)[OF m refl] show ?thesis by simp
  qed
qed

lemma re_findall_skip_lf: "re_findall (skip_lf c cs) = re_findall cs"
proof (cases cs)
  case Nil
  then show ?thesis by simp
next
  case (Cons d ds)
  have "match_var (CHR 0x0A # ds) = None" by (simp add: match_var_def)
  with Cons show ?thesis by simp
qed

lemma re_findall_splitlines_from:
  "concat (map re_findall (splitlines_from acc s)) = re_findall (acc @ s)"
proof (induction acc s rule: splitlines_from.induct)
  case (1 acc)
  then show ?case by simp
next
  case (2 acc c cs)
  show ?case
  proof (cases "is_linebreak c")
    case True
    from re_findall_append_break[OF linebreak_not_word[OF True] linebreak_not_dollar[OF True], of acc cs]
         2(1)[OF True] True
    show ?thesis by (simp add: re_findall_skip_lf)
  next
    case False
    with 2(2)[OF False] show ?thesis by simp
  qed
qed

lemma re_findall_splitlines: "concat (map re_findall (splitlines T)) = re_findall T"
  by (simp add: splitlines_def re_findall_splitlines_from)

lemma line_tokens_subset:
  "line \<in> set (splitlines T) \<Longrightarrow> set (re_findall line) \<subseteq> set (re_findall T)"
  using re_findall_splitlines[of T, symmetric] by auto


lemma texts_of_encode: "texts_of (encode ftb fthl fte segs) = concat (map snd segs)"
  by (induction segs) (auto simp: texts_of_def encode_def)

lemma emit_spec_resolved:
  assumes "\<forall>t \<in> set toks. \<exists>v. m t = Some v \<and> \<not> blank v"
    and "length frags = Suc (length toks)"
  shows "concat (map snd (emit_spec m frags toks))
           = interleave (map drop_blank frags) (map (\<lambda>t. dict_get m t []) toks)
         \<and> UNRESOLVED \<notin> set (map fst (emit_spec m frags toks))"
  using assms
proof (induction m frags toks rule: emit_spec.induct)
  case (1 m fragment fragments token tokens)
  then obtain v where v: "m token = Some v" "\<not> blank v" by auto
  from 1 have "concat (map snd (emit_spec m fragments tokens))
           = interleave (map drop_blank fragments) (map (\<lambda>t. dict_get m t []) tokens)
         \<and> UNRESOLVED \<notin> set (map fst (emit_spec m fragments tokens))"
    by simp
  moreover have "drop_blank fragment = (if blank fragment then [] else fragment)"
    by (simp add: drop_blank_def)
  moreover have "dict_get m token [] = v"
    using v by (simp add: dict_get_def)
  ultimately show ?case
    using v by (auto simp: literal_spec_def resolve_spec_def)
qed (simp_all add: literal_spec_def drop_blank_def)

lemma map_drop_blank_id:
  "\<forall>f \<in> set frags. blank f \<longrightarrow> f = [] \<Longrightarrow> map drop_blank frags = frags"
  by (induction frags) (auto simp: drop_blank_def)

text \<open>
  C2, as the code has it. When every token of the template's Token Set has a non-blank
  value in the mapping and the error format differs from the other two, the rendering has
  no UNRESOLVED segment, and the texts of the segments of each line, put together in
  order, are the line with every token replaced by its value and every blank fragment
  between, before or behind the tokens left out; when no fragment of the line is blank
  without being empty, this is the line with every token replaced by its value.
\<close>

theorem C2_round_trip_without_blank_fragments:
  assumes "\<forall>t \<in> set (collect_vars [] (re_findall T)). \<exists>v. m t = Some v \<and> \<not> blank v"
    and "fte \<noteq> ftb" and "fte \<noteq> fthl"
  shows "\<exists>out. sub_get_string T m ftb fthl fte = Inr out
           \<and> length out = length (splitlines T)
           \<and> (\<forall>l \<in> set out. Fmt fte \<notin> set l)
           \<and> (\<forall>i < length out.
                 texts_of (out ! i)
                   = interleave (map drop_blank (re_split (splitlines T ! i)))
                       (map (\<lambda>t. dict_get m t []) (re_findall (splitlines T ! i)))
                 \<and> ((\<forall>f \<in> set (re_split (splitlines T ! i)). blank f \<longrightarrow> f = []) \<longrightarrow>
                      texts_of (out ! i)
                        = interleave (re_split (splitlines T ! i))
                            (map (\<lambda>t. dict_get m t []) (re_findall (splitlines T ! i)))))"
proof -
  let ?out = "map (\<lambda>line. encode ftb fthl fte (render_line_spec m line)) (splitlines T)"
  have all: "\<forall>t \<in> set (re_findall T). \<exists>v. m t = Some v \<and> \<not> blank v"
    using assms(1) by (simp add: set_collect_vars)
  have line: "concat (map snd (render_line_spec m line))
                = interleave (map drop_blank (re_split line)) (map (\<lambda>t. dict_get m t []) (re_findall line))
              \<and> UNRESOLVED \<notin> set (map fst (render_line_spec m line))"
    if "line \<in> set (splitlines T)" for line
  proof -
    from line_tokens_subset[OF that] all
    have "\<forall>t \<in> set (re_findall line). \<exists>v. m t = Some v \<and> \<not> blank v" by blast
    from emit_spec_resolved[OF this length_re_split] show ?thesis
      by (simp add: render_line_spec_def)
  qed
  have 1: "sub_get_string T m ftb fthl fte = Inr ?out" by (rule sub_get_string_eq)
  have 2: "length ?out = length (splitlines T)" by simp
  have 3: "\<forall>l \<in> set ?out. Fmt fte \<notin> set l"
  proof
    fix l assume "l \<in> set ?out"
    then obtain ln where ln: "ln \<in> set (splitlines T)"
      and l: "l = encode ftb fthl fte (render_line_spec m ln)" by auto
    from line[OF ln] have u: "UNRESOLVED \<notin> set (map fst (render_line_spec m ln))" by simp
    show "Fmt fte \<notin> set l"
    proof
      assume "Fmt fte \<in> set l"
      with l have "\<exists>k \<in> set (map fst (render_line_spec m ln)). style_of ftb fthl fte k = fte"
        by (simp only: Fmt_in_encode)
      then obtain k where k: "k \<in> set (map fst (render_line_spec m ln))"
        and s: "style_of ftb fthl fte k = fte"
        by blast
      from s assms(2,3) have "k = UNRESOLVED" by (cases k) auto
      with k u show False by simp
    qed
  qed
  have 4: "\<forall>i < length ?out.
                 texts_of (?out ! i)
                   = interleave (map drop_blank (re_split (splitlines T ! i)))
                       (map (\<lambda>t. dict_get m t []) (re_findall (splitlines T ! i)))
                 \<and> ((\<forall>f \<in> set (re_split (splitlines T ! i)). blank f \<longrightarrow> f = []) \<longrightarrow>
                      texts_of (?out ! i)
                        = interleave (re_split (splitlines T ! i))
                            (map (\<lambda>t. dict_get m t []) (re_findall (splitlines T ! i))))"
  proof (intro allI impI)
    fix i assume "i < length ?out"
    then have i: "i < length (splitlines T)" by simp
    then have mem: "splitlines T ! i \<in> set (splitlines T)" by simp
    from i have t: "texts_of (?out ! i) = concat (map snd (render_line_spec m (splitlines T ! i)))"
      by (simp add: texts_of_encode)
    from line[OF mem] t
    have a: "texts_of (?out ! i)
               = interleave (map drop_blank (re_split (splitlines T ! i)))
                   (map (\<lambda>t. dict_get m t []) (re_findall (splitlines T ! i)))"
      by simp
    then show "texts_of (?out ! i)
                   = interleave (map drop_blank (re_split (splitlines T ! i)))
                       (map (\<lambda>t. dict_get m t []) (re_findall (splitlines T ! i)))
                 \<and> ((\<forall>f \<in> set (re_split (splitlines T ! i)). blank f \<longrightarrow> f = []) \<longrightarrow>
                      texts_of (?out ! i)
                        = interleave (re_split (splitlines T ! i))
                            (map (\<lambda>t. dict_get m t []) (re_findall (splitlines T ! i))))"
      by (simp add: map_drop_blank_id)
  qed
  from 1 2 3 4 show ?thesis by blast
qed

theorem C2_round_trip_without_blank_fragments_witness:
  "collect_vars [] (re_findall ''host=$HOST$ up'') = [''$HOST$'']
   \<and> map_of [(''$HOST$'', ''db01'')] ''$HOST$'' = Some ''db01'' \<and> \<not> blank ''db01''
   \<and> (2::nat) \<noteq> 0 \<and> (2::nat) \<noteq> 1
   \<and> sub_get_string ''host=$HOST$ up'' (map_of [(''$HOST$'', ''db01'')]) (0::nat) 1 2
       = Inr [[Fmt 0, Txt ''host='', Fmt 1, Txt ''db01'', Fmt 0, Txt '' up'']]
   \<and> Fmt (2::nat) \<notin> set [Fmt 0, Txt ''host='', Fmt 1, Txt ''db01'', Fmt 0, Txt '' up'']
   \<and> re_split ''host=$HOST$ up'' = [''host='', '' up'']
   \<and> \<not> blank ''host='' \<and> \<not> blank '' up''
   \<and> texts_of [Fmt (0::nat), Txt ''host='', Fmt 1, Txt ''db01'', Fmt 0, Txt '' up''] = ''host=db01 up''"
proof -
  let ?T = "''host=$HOST$ up''"
  let ?m = "map_of [(''$HOST$'', ''db01'')]"
  let ?l = "[Fmt (0::nat), Txt ''host='', Fmt 1, Txt ''db01'', Fmt 0, Txt '' up'']"
  have cv: "collect_vars [] (re_findall ?T) = [''$HOST$'']" by code_simp
  have mv: "?m ''$HOST$'' = Some ''db01''" by simp
  have nb: "\<not> blank ''db01''" by code_simp
  have h1: "\<forall>t \<in> set (collect_vars [] (re_findall ?T)). \<exists>v. ?m t = Some v \<and> \<not> blank v"
    unfolding cv using mv nb by simp
  have h2: "(2::nat) \<noteq> 0" and h3: "(2::nat) \<noteq> 1" by simp_all
  have sl: "splitlines ?T = [?T]" by code_simp
  have rs: "re_split ?T = [''host='', '' up'']" by code_simp
  have rf: "re_findall ?T = [''$HOST$'']" by code_simp
  have b1: "\<not> blank ''host=''" and b2: "\<not> blank '' up''" by code_simp+
  have ev: "sub_get_string ?T ?m (0::nat) 1 2 = Inr [?l]" by code_simp
  from C2_round_trip_without_blank_fragments[OF h1 h2 h3]
  obtain out where o: "sub_get_string ?T ?m (0::nat) 1 2 = Inr out"
    and u: "\<forall>l \<in> set out. Fmt (2::nat) \<notin> set l"
    and t: "\<forall>i < length out.
              texts_of (out ! i)
                = interleave (map drop_blank (re_split (splitlines ?T ! i)))
                    (map (\<lambda>t. dict_get ?m t []) (re_findall (splitlines ?T ! i)))
              \<and> ((\<forall>f \<in> set (re_split (splitlines ?T ! i)). blank f \<longrightarrow> f = []) \<longrightarrow>
                   texts_of (out ! i)
                     = interleave (re_split (splitlines ?T ! i))
                         (map (\<lambda>t. dict_get ?m t []) (re_findall (splitlines ?T ! i))))"
    by blast
  from o ev have out: "out = [?l]" by simp
  from u out have nu: "Fmt (2::nat) \<notin> set ?l" by simp
  have fr: "\<forall>f \<in> set (re_split (splitlines ?T ! 0)). blank f \<longrightarrow> f = []"
    unfolding sl using rs b1 b2 by simp
  from out have l0: "0 < length out" by simp
  note both = t[rule_format, OF l0]
  have "texts_of ?l = texts_of (out ! 0)"
    using out by simp
  also have "\<dots> = interleave (re_split (splitlines ?T ! 0))
                         (map (\<lambda>t. dict_get ?m t []) (re_findall (splitlines ?T ! 0)))"
    by (rule mp[OF conjunct2[OF both] fr])
  also have "\<dots> = ''host=db01 up''"
    by code_simp
  finally have tx: "texts_of ?l = ''host=db01 up''" .
  from cv mv nb h2 h3 ev nu rs b1 b2 tx show ?thesis by blast
qed

text \<open>
  C2 as stated fails: in \<^verbatim>\<open>$A$ $B$\<close> with values \<open>x\<close> and \<open>y\<close> the blank between the
  tokens is dropped, so the texts of the segments give \<open>xy\<close> and not \<open>x y\<close>.
\<close>

theorem C2_round_trip_counterexample:
  "collect_vars [] (re_findall ''$A$ $B$'') = [''$A$'', ''$B$'']
   \<and> map_of [(''$A$'', ''x''), (''$B$'', ''y'')] ''$A$'' = Some ''x'' \<and> \<not> blank ''x''
   \<and> map_of [(''$A$'', ''x''), (''$B$'', ''y'')] ''$B$'' = Some ''y'' \<and> \<not> blank ''y''
   \<and> sub_get_string ''$A$ $B$'' (map_of [(''$A$'', ''x''), (''$B$'', ''y'')]) (0::nat) 1 2
       = Inr [[Fmt 1, Txt ''x'', Fmt 1, Txt ''y'']]
   \<and> texts_of [Fmt (1::nat), Txt ''x'', Fmt 1, Txt ''y''] = ''xy''
   \<and> interleave (re_split ''$A$ $B$'') [''x'', ''y''] = ''x y''
   \<and> texts_of [Fmt (1::nat), Txt ''x'', Fmt 1, Txt ''y'']
        \<noteq> interleave (re_split ''$A$ $B$'') [''x'', ''y'']"
  by code_simp



end
